theory Spec2Isabelle
  imports Main "HOL-Library.Word" "HOL-Library.Multiset"
begin

section \<open>The parser of \<open>synchronous_standby_names\<close>\<close>

text \<open>
  The source works on \<open>std::string_view\<close>: a view is modelled by the characters it still
  covers, a \<open>string\<close> (bytes). \<open>size_t\<close> is the 64-bit unsigned word of the platforms the
  library is built for.
\<close>

type_synonym size_t = "64 word"

definition kSep :: "char list" where
  "kSep = [CHR '' '', CHR '','', CHR ''('', CHR '')'', CHR 0x22]"

text \<open>
  \<open>ConsumeToken\<close> takes the view by reference; the model returns the token together with
  the view as the call leaves it. When the view holds separators only
  (\<open>find_first_not_of\<close> gives \<open>npos\<close>) the empty token is returned and the view is left
  untouched. When no separator follows the token (\<open>find_first_of\<close> gives \<open>npos\<close>) the
  token is the whole rest and the view becomes empty, which is what the two list functions
  give in that case too.
\<close>

definition ConsumeToken :: "string \<Rightarrow> string \<times> string" where
  "ConsumeToken sv =
     (let sv1 = dropWhile (\<lambda>c. c \<in> set kSep) sv in
      if sv1 = [] then ([], sv)
      else (takeWhile (\<lambda>c. c \<notin> set kSep) sv1, dropWhile (\<lambda>c. c \<notin> set kSep) sv1))"

text \<open>
  \<open>ParseSize\<close>: the loop over the characters of the token, leaving at the first character
  outside \<open>'0'..'9'\<close>; the accumulator is a \<open>size_t\<close>, so \<open>*\<close> and \<open>+\<close> wrap. The test
  \<open>c < '0' || c > '9'\<close> has the same outcome for a signed and for an unsigned \<open>char\<close>
  (a byte above 127 fails one side or the other), so it is written on the byte's value.
\<close>

fun ParseSize_loop :: "string \<Rightarrow> size_t \<Rightarrow> size_t" where
  "ParseSize_loop [] result = result"
| "ParseSize_loop (c # cs) result =
     (if (of_char c :: nat) < of_char CHR ''0'' \<or> (of_char c :: nat) > of_char CHR ''9''
      then result
      else ParseSize_loop cs (result * 10 + (of_char c - of_char CHR ''0'')))"

definition ParseSize :: "string \<Rightarrow> size_t" where
  "ParseSize token = ParseSize_loop token 0"

text \<open>
  Modelled from the spec: \<open>utils::StrIcaseEqual\<close> (header \<open>utils/str_icase.hpp\<close>) is not
  among the sources. The spec calls it case-insensitive equality; it is taken as equality
  of the two byte strings after mapping the ASCII letters \<open>A..Z\<close> to lower case.
\<close>

definition to_lower :: "char \<Rightarrow> char" where
  "to_lower c =
     (if (of_char CHR ''A'' :: nat) \<le> of_char c \<and> (of_char c :: nat) \<le> of_char CHR ''Z''
      then char_of (of_char c + (32 :: nat)) else c)"

definition StrIcaseEqual :: "string \<Rightarrow> string \<Rightarrow> bool" where
  "StrIcaseEqual lhs rhs \<longleftrightarrow> map to_lower lhs = map to_lower rhs"

definition kQuorumKeyword :: string where
  "kQuorumKeyword = ''ANY''"

definition kMultiKeyword :: string where
  "kMultiKeyword = ''FIRST''"

text \<open>
  The final loop \<open>while (num_sync--) { emplace_back(token); token = ConsumeToken(value); }\<close>
  runs \<open>num_sync\<close> times; the model recurses on that number.
\<close>

fun emplace_loop :: "nat \<Rightarrow> string \<Rightarrow> string \<Rightarrow> string list" where
  "emplace_loop 0 token value = []"
| "emplace_loop (Suc n) token value =
     token # (case ConsumeToken value of (token', value') \<Rightarrow> emplace_loop n token' value')"

definition ParseSyncStandbyNames :: "string \<Rightarrow> string list" where
  "ParseSyncStandbyNames value0 =
     (case ConsumeToken value0 of (token, value) \<Rightarrow>
        if StrIcaseEqual token kQuorumKeyword then emplace_loop 0 token value
        else if token \<noteq> [] then
          (case (if StrIcaseEqual token kMultiKeyword then ConsumeToken value
                 else (token, value)) of (token, value) \<Rightarrow>
             if CHR ''('' \<in> set value then
               (case ConsumeToken value of (token', value') \<Rightarrow>
                  emplace_loop (unat (ParseSize token)) token' value')
             else emplace_loop 1 token value)
        else emplace_loop 0 token value)"

text \<open>
  The tokenisation in the words of the specification: separators are space, comma, the two
  parentheses and the double quote, consecutive separators collapse, and the tokens are the
  maximal runs of other characters. It is the yardstick the parser is compared with.
\<close>

function tokens :: "string \<Rightarrow> string list" where
  "tokens s =
     (let s1 = dropWhile (\<lambda>c. c \<in> set kSep) s in
      if s1 = [] then []
      else takeWhile (\<lambda>c. c \<notin> set kSep) s1 # tokens (dropWhile (\<lambda>c. c \<notin> set kSep) s1))"
  by pat_completeness auto
termination
proof (relation "measure length")
  show "wf (measure length)" by simp
next
  fix s s1 :: string
  assume s1: "s1 = dropWhile (\<lambda>c. c \<in> set kSep) s" and ne: "s1 \<noteq> []"
  from s1 ne have "hd s1 \<notin> set kSep"
    using hd_dropWhile [of "\<lambda>c. c \<in> set kSep" s] by simp
  with ne have "length (dropWhile (\<lambda>c. c \<notin> set kSep) s1) < length s1"
    by (cases s1) (simp_all add: le_imp_less_Suc length_dropWhile_le)
  moreover have "length s1 \<le> length s"
    unfolding s1 by (rule length_dropWhile_le)
  ultimately show "(dropWhile (\<lambda>c. c \<notin> set kSep) s1, s) \<in> measure length"
    by simp
qed

declare tokens.simps [simp del]

text \<open>
  The number a count token stands for when it is read as the specification says: a token of
  decimal digits, read in base ten.
\<close>

definition is_digit :: "char \<Rightarrow> bool" where
  "is_digit c \<longleftrightarrow>
     (of_char CHR ''0'' :: nat) \<le> of_char c \<and> (of_char c :: nat) \<le> of_char CHR ''9''"

definition decimal :: "string \<Rightarrow> nat" where
  "decimal ds = fold (\<lambda>c a. a * 10 + (of_char c - of_char CHR ''0'')) ds 0"

section \<open>Host state and the probe of one host\<close>

text \<open>
  Modelled from the spec: the enumeration \<open>ClusterHostType\<close> and the map type
  \<open>DsnIndicesByType\<close> are declared in headers that are not among the sources. The spec gives
  the role the four values this file uses, and describes the published mapping as one from
  role to a sequence of indices.
\<close>

datatype ClusterHostType = kNone | kMaster | kSyncSlave | kSlave

type_synonym DsnIndex = nat
type_synonym DsnIndices = "DsnIndex list"
type_synonym DsnIndicesByType = "ClusterHostType \<rightharpoonup> DsnIndices"

text \<open>\<open>Rtt\<close> is a signed count of microseconds; the file only stores and compares it.\<close>

type_synonym Rtt = int

definition kUnknownRtt :: Rtt where
  "kUnknownRtt = - 1"

definition kCheckTimeout :: nat where
  "kCheckTimeout = 1"

definition kShowSyncStandbyNames :: string where
  "kShowSyncStandbyNames = ''SHOW synchronous_standby_names''"

text \<open>A connection is known to this file by the pointer that owns it only.\<close>

type_synonym Connection = nat

record HostState =
  connection :: "Connection option"
  host_port :: string
  app_name :: string
  role :: ClusterHostType
  roundtrip_time :: Rtt
  detected_sync_slaves :: "string list"

text \<open>
  The connection layer is outside the file. What it can do to one probe is what it answers
  to the three calls \<open>RunCheck\<close> makes: each call returns or throws, and the only distinction
  the code draws between exceptions is whether \<open>catch (const ConnectionError&)\<close> takes
  them. \<open>Execute_reply\<close> stands for \<open>Execute(...)\<close> followed by \<open>AsSingleRow<std::string>()\<close>;
  \<open>elapsed\<close> is the difference of the two readings of the steady clock.
\<close>

datatype exn = ConnectionError | OtherException

record HostReply =
  Connect_reply :: "exn + Connection"
  CheckReadOnly_reply :: "exn + bool"
  elapsed :: Rtt
  Execute_reply :: "exn + string"

text \<open>
  The calls a probe issues are recorded with the deadline argument each one is given:
  \<open>Connection::Connect\<close> and \<open>Execute\<close> are called without one, \<open>CheckReadOnly\<close> with the
  value of \<open>MakeExecuteDeadline(kCheckTimeout)\<close>, which is made after \<open>Connect\<close> returned.
\<close>

datatype Deadline = MakeExecuteDeadline nat

datatype Call =
    CallConnect "Deadline option"
  | CallCheckReadOnly "Deadline option"
  | CallExecute string "Deadline option"

text \<open>
  How the body of \<open>RunCheck\<close> is left: after \<open>role_check_guard.Release()\<close>, by the \<open>return\<close>
  in the handler of the first \<open>try\<close>, through the handler of the second \<open>try\<close>, or by an
  exception no handler takes.
\<close>

datatype Exit = Released | Returned | Caught | Thrown exn

record Check =
  calls :: "Call list"
  exit_path :: Exit
  host_state :: HostState

definition role_check_guard :: "HostState \<Rightarrow> HostState" where
  "role_check_guard st =
     st\<lparr>connection := None, role := kNone, roundtrip_time := kUnknownRtt,
        detected_sync_slaves := []\<rparr>"

definition handler :: "exn \<Rightarrow> Exit \<Rightarrow> Exit" where
  "handler e taken = (if e = ConnectionError then taken else Thrown e)"

text \<open>The second \<open>try\<close> block of \<open>RunCheck\<close>, from the making of the deadline on.\<close>

definition check_role :: "HostReply \<Rightarrow> Call list \<Rightarrow> HostState \<Rightarrow> Check" where
  "check_role r cs st =
     (let deadline = MakeExecuteDeadline kCheckTimeout;
          cs1 = cs @ [CallCheckReadOnly (Some deadline)]
      in case CheckReadOnly_reply r of
           Inl e \<Rightarrow> \<lparr>calls = cs1, exit_path = handler e Caught, host_state = st\<rparr>
         | Inr ro \<Rightarrow>
             (let st1 = st\<lparr>role := (if ro then kSlave else kMaster),
                           roundtrip_time := elapsed r\<rparr>
              in if role st1 = kMaster then
                   (let cs2 = cs1 @ [CallExecute kShowSyncStandbyNames None]
                    in case Execute_reply r of
                         Inl e \<Rightarrow>
                           \<lparr>calls = cs2, exit_path = handler e Caught, host_state = st1\<rparr>
                       | Inr res \<Rightarrow>
                           \<lparr>calls = cs2, exit_path = Released,
                            host_state =
                              st1\<lparr>detected_sync_slaves := ParseSyncStandbyNames res\<rparr>\<rparr>)
                 else \<lparr>calls = cs1, exit_path = Released, host_state = st1\<rparr>))"

text \<open>
  \<open>RunCheck\<close> on the slot \<open>host_states_[idx]\<close> and the answers of the host \<open>dsns_[idx]\<close>:
  first the statements of the body, then the scope guard, which runs when the body is left
  in any way but after \<open>Release()\<close>, also while an exception unwinds.
\<close>

definition RunCheck_body :: "HostReply \<Rightarrow> HostState \<Rightarrow> Check" where
  "RunCheck_body r st =
     (if connection st = None then
        (case Connect_reply r of
           Inl e \<Rightarrow>
             \<lparr>calls = [CallConnect None], exit_path = handler e Returned, host_state = st\<rparr>
         | Inr c \<Rightarrow> check_role r [CallConnect None] (st\<lparr>connection := Some c\<rparr>))
      else check_role r [] st)"

definition RunCheck :: "HostReply \<Rightarrow> HostState \<Rightarrow> Check" where
  "RunCheck r st =
     (let run = RunCheck_body r st
      in if exit_path run = Released then run
         else run\<lparr>host_state := role_check_guard (host_state run)\<rparr>)"

section \<open>One discovery cycle\<close>

text \<open>
  Every task runs \<open>RunCheck(i)\<close> on its own slot, so the tasks are modelled one after the
  other. \<open>dsns_\<close> and \<open>host_states_\<close> have the same length by construction.
\<close>

definition spawn_tasks :: "(DsnIndex \<Rightarrow> HostReply) \<Rightarrow> HostState list \<Rightarrow> Check list" where
  "spawn_tasks env states =
     map (\<lambda>i. RunCheck (env i) (states ! i)) [0..<length states]"

text \<open>
  The join loop: \<open>tasks[i].Get()\<close> rethrows what task \<open>i\<close> threw, which ends
  \<open>RunDiscovery\<close> there; otherwise the index is kept when the role is not \<open>kNone\<close>.
\<close>

fun join_loop :: "Check list \<Rightarrow> DsnIndex \<Rightarrow> DsnIndices \<Rightarrow> exn + DsnIndices" where
  "join_loop [] i alive = Inr alive"
| "join_loop (t # ts) i alive =
     (case exit_path t of
        Thrown e \<Rightarrow> Inl e
      | _ \<Rightarrow> join_loop ts (Suc i)
               (if role (host_state t) \<noteq> kNone then alive @ [i] else alive))"

text \<open>\<open>std::find_if\<close> as the position of the first match, the length standing for \<open>end()\<close>.\<close>

fun find_if :: "('a \<Rightarrow> bool) \<Rightarrow> 'a list \<Rightarrow> nat" where
  "find_if p [] = 0"
| "find_if p (x # xs) = (if p x then 0 else Suc (find_if p xs))"

definition mark_sync_slave :: "string \<Rightarrow> DsnIndices \<Rightarrow> HostState list \<Rightarrow> HostState list" where
  "mark_sync_slave ss_app_name alive states =
     fold (\<lambda>idx hs.
             if StrIcaseEqual (app_name (hs ! idx)) ss_app_name
             then hs[idx := (hs ! idx)\<lparr>role := kSyncSlave\<rparr>] else hs)
          alive states"

text \<open>
  The loops write roles only, so the list of names the outer loop walks is the one the
  master had before them.
\<close>

definition promote :: "HostState list \<Rightarrow> DsnIndices \<Rightarrow> HostState list" where
  "promote states alive =
     (let master = find_if (\<lambda>s. role s = kMaster) states
      in if master \<noteq> length states
            \<and> detected_sync_slaves (states ! master) \<noteq> []
         then fold (\<lambda>ss_app_name hs. mark_sync_slave ss_app_name alive hs)
                   (detected_sync_slaves (states ! master)) states
         else states)"

text \<open>
  \<open>std::sort\<close> is not part of the repository; the model is its contract: the result is a
  rearrangement of the input in which no element is followed by one the comparison puts
  before it. The order of elements the comparison does not tell apart is left open by it.
\<close>

definition std_sort :: "('a \<Rightarrow> 'a \<Rightarrow> bool) \<Rightarrow> 'a list \<Rightarrow> 'a list \<Rightarrow> bool" where
  "std_sort cmp xs ys \<longleftrightarrow> mset ys = mset xs \<and> sorted_wrt (\<lambda>a b. \<not> cmp b a) ys"

definition bucket :: "DsnIndicesByType \<Rightarrow> ClusterHostType \<Rightarrow> DsnIndices" where
  "bucket m t = (case m t of None \<Rightarrow> [] | Some xs \<Rightarrow> xs)"

definition push_back :: "DsnIndicesByType \<Rightarrow> ClusterHostType \<Rightarrow> DsnIndex \<Rightarrow> DsnIndicesByType" where
  "push_back m t idx = m(t \<mapsto> bucket m t @ [idx])"

definition by_type_step :: "HostState list \<Rightarrow> DsnIndex \<Rightarrow> DsnIndicesByType \<Rightarrow> DsnIndicesByType" where
  "by_type_step states idx m =
     (let m1 = push_back m (role (states ! idx)) idx
      in if role (states ! idx) = kSyncSlave then push_back m1 kSlave idx else m1)"

definition build_by_type :: "HostState list \<Rightarrow> DsnIndices \<Rightarrow> DsnIndicesByType" where
  "build_by_type states alive = fold (by_type_step states) alive Map.empty"

text \<open>
  What a cycle leaves: the members \<open>host_states_\<close>, \<open>dsn_indices_by_type_\<close> and
  \<open>alive_dsn_indices_\<close>, the last two as assigned at the end. The fields carry the
  members' names without the final underscore.
\<close>

record Cycle =
  host_states :: "HostState list"
  dsn_indices_by_type :: DsnIndicesByType
  alive_dsn_indices :: DsnIndices

definition rtt_less :: "HostState list \<Rightarrow> DsnIndex \<Rightarrow> DsnIndex \<Rightarrow> bool" where
  "rtt_less states lhs rhs \<longleftrightarrow>
     roundtrip_time (states ! lhs) < roundtrip_time (states ! rhs)"

text \<open>The host states once every task has been joined.\<close>

definition joined_states :: "(DsnIndex \<Rightarrow> HostReply) \<Rightarrow> HostState list \<Rightarrow> HostState list" where
  "joined_states env hs = map host_state (spawn_tasks env hs)"

text \<open>
  \<open>RunDiscovery\<close> relates the answers of the hosts and the host states before the cycle to
  its outcome: the exception a join rethrew, with nothing published, or the states and
  the two values assigned at the end.
\<close>

inductive RunDiscovery ::
  "(DsnIndex \<Rightarrow> HostReply) \<Rightarrow> HostState list \<Rightarrow> exn + Cycle \<Rightarrow> bool" where
  rethrow:
    "join_loop (spawn_tasks env hs) 0 [] = Inl e \<Longrightarrow> RunDiscovery env hs (Inl e)"
| publish:
    "join_loop (spawn_tasks env hs) 0 [] = Inr alive \<Longrightarrow>
     hs2 = promote (joined_states env hs) alive \<Longrightarrow>
     std_sort (rtt_less hs2) alive sorted_alive \<Longrightarrow>
     RunDiscovery env hs
       (Inr \<lparr>host_states = hs2,
            dsn_indices_by_type = build_by_type hs2 sorted_alive,
            alive_dsn_indices = sorted_alive\<rparr>)"

section \<open>Example clusters\<close>

text \<open>
  The state the constructor \<open>HostState(const Dsn&)\<close> makes, for a host whose escaped name
  is given, and a host that answers every call of a probe.
\<close>

definition new_HostState :: "string \<Rightarrow> HostState" where
  "new_HostState name =
     \<lparr>connection = None, host_port = [], app_name = name, role = kNone,
      roundtrip_time = kUnknownRtt, detected_sync_slaves = []\<rparr>"

definition answers :: "bool \<Rightarrow> Rtt \<Rightarrow> string \<Rightarrow> HostReply" where
  "answers ro rtt names =
     \<lparr>Connect_reply = Inr 0, CheckReadOnly_reply = Inr ro, elapsed = rtt,
      Execute_reply = Inr names\<rparr>"

text \<open>
  A master whose \<open>SHOW\<close> query throws an exception that is not a \<open>ConnectionError\<close>, and
  a host that refuses the connection.
\<close>

definition query_fails :: HostReply where
  "query_fails =
     \<lparr>Connect_reply = Inr 0, CheckReadOnly_reply = Inr False, elapsed = 3000,
      Execute_reply = Inl OtherException\<rparr>"


text \<open>
  Scenario S6 of the specification: the master \<open>m\<close> and the replicas \<open>r1\<close> and \<open>r2\<close>, with
  round-trip times of 3, 5 and 2 milliseconds; the standby list of the master names \<open>r1\<close>
  first. \<open>states_S6\<close> and \<open>out_S6\<close> are the host states and the values after the cycle.
\<close>

definition cluster_S6 :: "HostState list" where
  "cluster_S6 = [new_HostState ''m'', new_HostState ''r1'', new_HostState ''r2'']"

definition env_S6 :: "DsnIndex \<Rightarrow> HostReply" where
  "env_S6 i =
     (if i = 0 then answers False 3000 ''FIRST 1 (r1, r2)''
      else if i = 1 then answers True 5000 [] else answers True 2000 [])"

definition states_S6 :: "HostState list" where
  "states_S6 =
     [\<lparr>connection = Some 0, host_port = [], app_name = ''m'', role = kMaster,
       roundtrip_time = 3000, detected_sync_slaves = [''r1'']\<rparr>,
      \<lparr>connection = Some 0, host_port = [], app_name = ''r1'', role = kSyncSlave,
       roundtrip_time = 5000, detected_sync_slaves = []\<rparr>,
      \<lparr>connection = Some 0, host_port = [], app_name = ''r2'', role = kSlave,
       roundtrip_time = 2000, detected_sync_slaves = []\<rparr>]"

definition out_S6 :: Cycle where
  "out_S6 =
     \<lparr>host_states = states_S6,
      dsn_indices_by_type = [kMaster \<mapsto> [0], kSyncSlave \<mapsto> [1], kSlave \<mapsto> [2, 1]],
      alive_dsn_indices = [2, 0, 1]\<rparr>"

text \<open>
  Seventeen replicas \<open>ra\<close> to \<open>rq\<close> that all answer with the same round-trip time.
  \<open>order_tie\<close> is the order in which the \<open>std::sort\<close> of the GNU C++ library leaves
  seventeen elements that compare equal: above its threshold of sixteen it moves the median
  of the second, the middle and the last element to the front (the middle one here) and
  partitions by exchanging, from both ends, whatever is not smaller than the pivot.
\<close>

definition cluster_tie :: "HostState list" where
  "cluster_tie = map (\<lambda>c. new_HostState [CHR ''r'', c]) ''abcdefghijklmnopq''"

definition env_tie :: "DsnIndex \<Rightarrow> HostReply" where
  "env_tie i = answers True 5000 []"

definition states_tie :: "HostState list" where
  "states_tie =
     map (\<lambda>c. \<lparr>connection = Some 0, host_port = [], app_name = [CHR ''r'', c], role = kSlave,
                roundtrip_time = 5000, detected_sync_slaves = []\<rparr>) ''abcdefghijklmnopq''"

definition order_tie :: DsnIndices where
  "order_tie = [8, 16, 15, 14, 13, 12, 11, 10, 9, 0, 7, 6, 5, 4, 3, 2, 1]"

definition out_tie :: Cycle where
  "out_tie =
     \<lparr>host_states = states_tie,
      dsn_indices_by_type = [kSlave \<mapsto> order_tie],
      alive_dsn_indices = order_tie\<rparr>"


text \<open>
  A master whose standby list starts with its own name, and one replica.
\<close>

definition cluster_self :: "HostState list" where
  "cluster_self = [new_HostState ''pg_a'', new_HostState ''pg_b'']"

definition env_self :: "DsnIndex \<Rightarrow> HostReply" where
  "env_self i =
     (if i = 0 then answers False 3000 ''FIRST 1 (pg_a, pg_b)'' else answers True 5000 [])"

definition states_self :: "HostState list" where
  "states_self =
     [\<lparr>connection = Some 0, host_port = [], app_name = ''pg_a'', role = kSyncSlave,
       roundtrip_time = 3000, detected_sync_slaves = [''pg_a'']\<rparr>,
      \<lparr>connection = Some 0, host_port = [], app_name = ''pg_b'', role = kSlave,
       roundtrip_time = 5000, detected_sync_slaves = []\<rparr>]"

definition out_self :: Cycle where
  "out_self =
     \<lparr>host_states = states_self,
      dsn_indices_by_type = [kSyncSlave \<mapsto> [0], kSlave \<mapsto> [0, 1]],
      alive_dsn_indices = [0, 1]\<rparr>"

text \<open>
  Host states at the join with two masters, each listing another replica.
\<close>

definition two_masters :: "HostState list" where
  "two_masters =
     [\<lparr>connection = Some 0, host_port = [], app_name = ''pg_a'', role = kMaster,
       roundtrip_time = 3000, detected_sync_slaves = [''pg_c'']\<rparr>,
      \<lparr>connection = Some 0, host_port = [], app_name = ''pg_b'', role = kMaster,
       roundtrip_time = 4000, detected_sync_slaves = [''pg_d'']\<rparr>,
      \<lparr>connection = Some 0, host_port = [], app_name = ''pg_c'', role = kSlave,
       roundtrip_time = 5000, detected_sync_slaves = []\<rparr>,
      \<lparr>connection = Some 0, host_port = [], app_name = ''pg_d'', role = kSlave,
       roundtrip_time = 6000, detected_sync_slaves = []\<rparr>]"

section \<open>What the parser returns\<close>

subsection \<open>The tokenizer against the specified tokenisation\<close>

lemma hd_dropWhile_sep:
  "dropWhile (\<lambda>c. c \<in> set kSep) sv \<noteq> [] \<Longrightarrow>
     takeWhile (\<lambda>c. c \<notin> set kSep) (dropWhile (\<lambda>c. c \<in> set kSep) sv) \<noteq> []"
  using hd_dropWhile [of "\<lambda>c. c \<in> set kSep" sv]
  by (cases "dropWhile (\<lambda>c. c \<in> set kSep) sv") auto

lemma ConsumeToken_tokens:
  assumes "ConsumeToken sv = (t, v)"
  shows "(tokens sv = [] \<and> t = [] \<and> v = sv) \<or> (t \<noteq> [] \<and> tokens sv = t # tokens v)"
proof (cases "dropWhile (\<lambda>c. c \<in> set kSep) sv = []")
  case True
  then have "tokens sv = []"
    by (simp add: tokens.simps [of sv])
  with assms True show ?thesis
    by (simp add: ConsumeToken_def)
next
  case False
  let ?s1 = "dropWhile (\<lambda>c. c \<in> set kSep) sv"
  from False have "ConsumeToken sv =
      (takeWhile (\<lambda>c. c \<notin> set kSep) ?s1, dropWhile (\<lambda>c. c \<notin> set kSep) ?s1)"
    unfolding ConsumeToken_def Let_def by (simp only: if_False)
  with assms have t: "t = takeWhile (\<lambda>c. c \<notin> set kSep) ?s1"
    and v: "v = dropWhile (\<lambda>c. c \<notin> set kSep) ?s1"
    by simp_all
  from False have "tokens sv = t # tokens v"
    unfolding t v by (subst tokens.simps) (simp only: Let_def if_False)
  moreover from hd_dropWhile_sep [OF False] have "t \<noteq> []"
    unfolding t .
  ultimately show ?thesis by simp
qed

lemma take_pad: "take n (ys @ replicate (Suc n) z) = take n (ys @ replicate n z)"
  by (simp add: min_def del: replicate_Suc)

lemma emplace_loop_tokens:
  "emplace_loop n t v = take n (t # tokens v @ replicate n [])"
proof (induction n arbitrary: t v)
  case 0
  show ?case by simp
next
  case (Suc n)
  obtain t' v' where c: "ConsumeToken v = (t', v')" by (cases "ConsumeToken v")
  from ConsumeToken_tokens [OF c]
  have "take n (t' # tokens v' @ replicate n []) = take n (tokens v @ replicate (Suc n) [])"
  proof
    assume "tokens v = [] \<and> t' = [] \<and> v' = v"
    then show ?thesis by (simp add: take_Cons' min_def replicate_append_same flip: replicate_Suc)
  next
    assume "t' \<noteq> [] \<and> tokens v = t' # tokens v'"
    then show ?thesis using take_pad [of n "t' # tokens v'" "[]"] by simp
  qed
  with c Suc.IH [of t' v'] show ?case by simp
qed

lemma emplace_loop_after_token:
  assumes "ConsumeToken v = (t', v')"
  shows "emplace_loop n t' v' = take n (tokens v @ replicate n [])"
proof -
  from ConsumeToken_tokens [OF assms] show ?thesis
  proof
    assume "tokens v = [] \<and> t' = [] \<and> v' = v"
    then show ?thesis
      by (simp add: emplace_loop_tokens take_Cons' min_def replicate_append_same flip: replicate_Suc)
         
  next
    assume "t' \<noteq> [] \<and> tokens v = t' # tokens v'"
    then show ?thesis by (simp add: emplace_loop_tokens)
  qed
qed

lemma StrIcaseEqual_length: "StrIcaseEqual a b \<Longrightarrow> length a = length b"
  unfolding StrIcaseEqual_def by (rule map_eq_imp_length_eq)

lemma multi_not_quorum:
  "StrIcaseEqual t kMultiKeyword \<Longrightarrow> t \<noteq> [] \<and> \<not> StrIcaseEqual t kQuorumKeyword"
  by (auto dest!: StrIcaseEqual_length simp: kMultiKeyword_def kQuorumKeyword_def)

subsection \<open>The count\<close>

lemma digit_word:
  assumes "is_digit c"
  shows "(of_char c - of_char CHR ''0'' :: size_t) = of_nat (of_char c - of_char CHR ''0'')"
proof -
  from assms have "(of_char CHR ''0'' :: nat) \<le> of_char c" by (simp add: is_digit_def)
  then have "(of_nat (of_char c - of_char CHR ''0'') :: size_t)
      = of_nat (of_char c) - of_nat (of_char CHR ''0'')"
    by (rule of_nat_diff)
  then show ?thesis by (simp only: of_nat_of_char)
qed

lemma ParseSize_loop_digits:
  "\<forall>c \<in> set cs. is_digit c \<Longrightarrow>
     ParseSize_loop cs (of_nat a)
       = of_nat (fold (\<lambda>c a. a * 10 + (of_char c - of_char CHR ''0'')) cs a)"
proof (induction cs arbitrary: a)
  case Nil
  show ?case by simp
next
  case (Cons c cs)
  then have d: "is_digit c" and ds: "\<forall>c \<in> set cs. is_digit c" by simp_all
  from d have nb: "\<not> ((of_char c :: nat) < of_char CHR ''0'' \<or> (of_char c :: nat) > of_char CHR ''9'')"
    by (auto simp: is_digit_def)
  have "ParseSize_loop (c # cs) (of_nat a)
      = ParseSize_loop cs (of_nat a * 10 + (of_char c - of_char CHR ''0''))"
    using nb by (simp only: ParseSize_loop.simps if_False)
  also have "of_nat a * 10 + (of_char c - of_char CHR ''0'' :: size_t)
      = of_nat (a * 10 + (of_char c - of_char CHR ''0''))"
    by (simp only: digit_word [OF d] of_nat_add of_nat_mult of_nat_numeral)
  finally show ?case
    using Cons.IH [OF ds, of "a * 10 + (of_char c - of_char CHR ''0'')"] by simp
qed

lemma ParseSize_decimal:
  assumes "\<forall>c \<in> set token. is_digit c" and "decimal token < 2 ^ 64"
  shows "unat (ParseSize token) = decimal token"
proof -
  from ParseSize_loop_digits [OF assms(1), of 0]
  have "ParseSize token = of_nat (decimal token)"
    by (simp add: ParseSize_def decimal_def)
  with assms(2) show ?thesis
    by (simp add: unat_of_nat take_bit_nat_eq_self)
qed

subsection \<open>The grammar\<close>

text \<open>
  Claim C1, as amended. Let \<open>t\<close> be the first token of the input and \<open>v\<close> the view after
  it, \<open>c\<close> the next token and \<open>w\<close> the view after that one.
  \<^item> If \<open>t\<close> equals \<open>ANY\<close> without regard to case, the result is empty.
  \<^item> \<open>FIRST num_sync ( name, ... )\<close>: if \<open>t\<close> equals \<open>FIRST\<close> without regard to case, a
    \<open>(\<close> occurs after the count \<open>c\<close> and at least \<open>num_sync\<close> name tokens follow it,
    the result is the first \<open>num_sync\<close> of them.
  \<^item> \<open>num_sync ( name, ... )\<close>: the same with the count \<open>t\<close> itself and the names in \<open>v\<close>.
  \<^item> A list of names without parentheses whose first name is neither keyword gives
    exactly that first name.
  \<^item> An input without any token, the empty one among them, gives the empty result.
  What the bounded forms give when fewer than \<open>num_sync\<close> names follow is the subject of
  claim C9.
\<close>

theorem ParseSyncStandbyNames_grammar:
  assumes "ConsumeToken s = (t, v)" and "ConsumeToken v = (c, w)"
  shows "(StrIcaseEqual t kQuorumKeyword \<longrightarrow> ParseSyncStandbyNames s = []) \<and>
         (StrIcaseEqual t kMultiKeyword \<and> CHR ''('' \<in> set w
            \<and> unat (ParseSize c) \<le> length (tokens w) \<longrightarrow>
          ParseSyncStandbyNames s = take (unat (ParseSize c)) (tokens w)) \<and>
         (t \<noteq> [] \<and> \<not> StrIcaseEqual t kQuorumKeyword \<and> \<not> StrIcaseEqual t kMultiKeyword
            \<and> CHR ''('' \<in> set v \<and> unat (ParseSize t) \<le> length (tokens v) \<longrightarrow>
          ParseSyncStandbyNames s = take (unat (ParseSize t)) (tokens v)) \<and>
         (t \<noteq> [] \<and> \<not> StrIcaseEqual t kQuorumKeyword \<and> \<not> StrIcaseEqual t kMultiKeyword
            \<and> CHR ''('' \<notin> set v \<longrightarrow>
          ParseSyncStandbyNames s = [t]) \<and>
         (t = [] \<longrightarrow> ParseSyncStandbyNames s = [])"
proof (intro conjI impI)
  assume "StrIcaseEqual t kQuorumKeyword"
  with assms(1) show "ParseSyncStandbyNames s = []"
    by (simp add: ParseSyncStandbyNames_def)
next
  assume h: "StrIcaseEqual t kMultiKeyword \<and> CHR ''('' \<in> set w
    \<and> unat (ParseSize c) \<le> length (tokens w)"
  obtain t' w' where c: "ConsumeToken w = (t', w')" by (cases "ConsumeToken w")
  from h multi_not_quorum [of t] assms c
  have "ParseSyncStandbyNames s = emplace_loop (unat (ParseSize c)) t' w'"
    by (simp add: ParseSyncStandbyNames_def)
  with h show "ParseSyncStandbyNames s = take (unat (ParseSize c)) (tokens w)"
    by (simp add: emplace_loop_after_token [OF c])
next
  assume h: "t \<noteq> [] \<and> \<not> StrIcaseEqual t kQuorumKeyword \<and> \<not> StrIcaseEqual t kMultiKeyword
    \<and> CHR ''('' \<in> set v \<and> unat (ParseSize t) \<le> length (tokens v)"
  with assms have "ParseSyncStandbyNames s = emplace_loop (unat (ParseSize t)) c w"
    by (simp add: ParseSyncStandbyNames_def)
  with h show "ParseSyncStandbyNames s = take (unat (ParseSize t)) (tokens v)"
    by (simp add: emplace_loop_after_token [OF assms(2)])
next
  assume "t \<noteq> [] \<and> \<not> StrIcaseEqual t kQuorumKeyword \<and> \<not> StrIcaseEqual t kMultiKeyword
    \<and> CHR ''('' \<notin> set v"
  with assms show "ParseSyncStandbyNames s = [t]"
    by (simp add: ParseSyncStandbyNames_def)
next
  assume "t = []"
  with assms(1) show "ParseSyncStandbyNames s = []"
    by (simp add: ParseSyncStandbyNames_def)
qed

text \<open>
  Claim C9. In the bounded forms (the first token is not \<open>ANY\<close>, \<open>c\<close> is the count token,
  found after \<open>FIRST\<close> when the input starts with it, and a \<open>(\<close> occurs somewhere in the
  view \<open>w\<close> after the count) the result has exactly \<open>n\<close> entries, \<open>n\<close> being the
  \<open>num_sync\<close> that \<open>ParseSize\<close> reads from the count token: the name tokens that follow,
  in order, and empty strings in the places for which no name is left. For a count token
  of decimal digits that denotes a number below \<open>2 ^ 64\<close>, \<open>n\<close> is that number.
\<close>

theorem ParseSyncStandbyNames_bounded:
  assumes "ConsumeToken s = (t, v)" and "t \<noteq> []" and "\<not> StrIcaseEqual t kQuorumKeyword"
    and "(if StrIcaseEqual t kMultiKeyword then ConsumeToken v else (t, v)) = (c, w)"
    and "CHR ''('' \<in> set w"
  shows "length (ParseSyncStandbyNames s) = unat (ParseSize c) \<and>
         ParseSyncStandbyNames s =
           take (unat (ParseSize c)) (tokens w @ replicate (unat (ParseSize c)) []) \<and>
         ((\<forall>ch \<in> set c. is_digit ch) \<and> decimal c < 2 ^ 64 \<longrightarrow>
            length (ParseSyncStandbyNames s) = decimal c)"
proof -
  obtain t' w' where c: "ConsumeToken w = (t', w')" by (cases "ConsumeToken w")
  from assms c have "ParseSyncStandbyNames s = emplace_loop (unat (ParseSize c)) t' w'"
    by (simp add: ParseSyncStandbyNames_def)
  then have p: "ParseSyncStandbyNames s =
      take (unat (ParseSize c)) (tokens w @ replicate (unat (ParseSize c)) [])"
    by (simp only: emplace_loop_after_token [OF c])
  then have len: "length (ParseSyncStandbyNames s) = unat (ParseSize c)" by simp
  have "length (ParseSyncStandbyNames s) = decimal c"
    if "(\<forall>ch \<in> set c. is_digit ch) \<and> decimal c < 2 ^ 64"
    using that len ParseSize_decimal [of c] by simp
  with len p show ?thesis by blast
qed


text \<open>The scenarios S1 to S5 of the specification, obtained from the theorem.\<close>

theorem ParseSyncStandbyNames_grammar_witness:
  "ParseSyncStandbyNames ''ANY 2 (host_a, host_b, host_c)'' = [] \<and>
   ParseSyncStandbyNames ''FIRST 2 (host_a, host_b, host_c)'' = [''host_a'', ''host_b''] \<and>
   ParseSyncStandbyNames ''2 (host_a, host_b, host_c)'' = [''host_a'', ''host_b''] \<and>
   ParseSyncStandbyNames ''host_solo'' = [''host_solo''] \<and>
   ParseSyncStandbyNames [] = []"
proof -
  have names: "tokens '' (host_a, host_b, host_c)'' = [''host_a'', ''host_b'', ''host_c'']"
    by code_simp
  have two: "unat (ParseSize ''2'') = 2"
    by (simp add: ParseSize_def)
  have any1: "ConsumeToken ''ANY 2 (host_a, host_b, host_c)''
      = (''ANY'', '' 2 (host_a, host_b, host_c)'')"
    and first1: "ConsumeToken ''FIRST 2 (host_a, host_b, host_c)''
      = (''FIRST'', '' 2 (host_a, host_b, host_c)'')"
    and count1: "ConsumeToken '' 2 (host_a, host_b, host_c)''
      = (''2'', '' (host_a, host_b, host_c)'')"
    and count2: "ConsumeToken ''2 (host_a, host_b, host_c)''
      = (''2'', '' (host_a, host_b, host_c)'')"
    and name1: "ConsumeToken '' (host_a, host_b, host_c)'' = (''host_a'', '', host_b, host_c)'')"
    and solo1: "ConsumeToken ''host_solo'' = (''host_solo'', [])"
    and empty1: "ConsumeToken [] = ([], [])"
    by (simp_all add: ConsumeToken_def kSep_def)
  have s1: "ParseSyncStandbyNames ''ANY 2 (host_a, host_b, host_c)'' = []"
    using ParseSyncStandbyNames_grammar [OF any1 count1]
    by (simp add: StrIcaseEqual_def to_lower_def kQuorumKeyword_def)
  have s2: "ParseSyncStandbyNames ''FIRST 2 (host_a, host_b, host_c)'' = [''host_a'', ''host_b'']"
    using ParseSyncStandbyNames_grammar [OF first1 count1]
    by (simp add: StrIcaseEqual_def to_lower_def kMultiKeyword_def names two)
  have s3: "ParseSyncStandbyNames ''2 (host_a, host_b, host_c)'' = [''host_a'', ''host_b'']"
    using ParseSyncStandbyNames_grammar [OF count2 name1]
    by (simp add: StrIcaseEqual_def to_lower_def kMultiKeyword_def kQuorumKeyword_def names two)
  have s4: "ParseSyncStandbyNames ''host_solo'' = [''host_solo'']"
    using ParseSyncStandbyNames_grammar [OF solo1 empty1]
    by (simp add: StrIcaseEqual_def to_lower_def kMultiKeyword_def kQuorumKeyword_def)
  have s5: "ParseSyncStandbyNames [] = []"
    using ParseSyncStandbyNames_grammar [OF empty1 empty1] by simp
  from s1 s2 s3 s4 s5 show ?thesis by simp
qed

text \<open>
  Where claim C1 as first written fails: with the count 2 and a single name the result has
  a second entry, the empty string, which is no name token of the input; and a list of
  names that starts with the name \<open>first\<close> gives the second name.
\<close>

theorem ParseSyncStandbyNames_grammar_counterexample:
  "ParseSyncStandbyNames ''2 (host_a)'' = [''host_a'', []] \<and>
   take 2 (tokens '' (host_a)'') = [''host_a''] \<and>
   ParseSyncStandbyNames ''first, host_b'' = [''host_b'']"
  by code_simp

theorem ParseSyncStandbyNames_bounded_witness:
  "length (ParseSyncStandbyNames ''FIRST 3 (host_a, host_b)'') = 3 \<and>
   ParseSyncStandbyNames ''FIRST 3 (host_a, host_b)'' = [''host_a'', ''host_b'', []] \<and>
   decimal ''3'' = 3"
proof -
  have names: "tokens '' (host_a, host_b)'' = [''host_a'', ''host_b'']"
    by code_simp
  have three: "unat (ParseSize ''3'') = 3"
    by (simp add: ParseSize_def)
  have first1: "ConsumeToken ''FIRST 3 (host_a, host_b)'' = (''FIRST'', '' 3 (host_a, host_b)'')"
    and count1: "ConsumeToken '' 3 (host_a, host_b)'' = (''3'', '' (host_a, host_b)'')"
    by (simp_all add: ConsumeToken_def kSep_def)
  have kw: "StrIcaseEqual ''FIRST'' kMultiKeyword" "\<not> StrIcaseEqual ''FIRST'' kQuorumKeyword"
    by (simp_all add: StrIcaseEqual_def kMultiKeyword_def kQuorumKeyword_def)
  have sel: "(if StrIcaseEqual ''FIRST'' kMultiKeyword then ConsumeToken '' 3 (host_a, host_b)''
             else (''FIRST'', '' 3 (host_a, host_b)'')) = (''3'', '' (host_a, host_b)'')"
    using kw count1 by simp
  have par: "CHR ''('' \<in> set '' (host_a, host_b)''" and ne: "''FIRST'' \<noteq> []"
    by simp_all
  have dec: "decimal ''3'' = 3"
    by (simp add: decimal_def)
  from ParseSyncStandbyNames_bounded [OF first1 ne kw(2) sel par]
  have "length (ParseSyncStandbyNames ''FIRST 3 (host_a, host_b)'') = unat (ParseSize ''3'')"
    and "ParseSyncStandbyNames ''FIRST 3 (host_a, host_b)'' =
      take (unat (ParseSize ''3''))
        (tokens '' (host_a, host_b)'' @ replicate (unat (ParseSize ''3'')) [])"
    by blast+
  with dec show ?thesis
    by (simp add: names three eval_nat_numeral)
qed

section \<open>What a probe leaves behind\<close>

lemma handler_Released [simp]:
  "handler e Caught \<noteq> Released" "handler e Returned \<noteq> Released"
  by (simp_all add: handler_def)

lemma check_role_Released:
  "exit_path (check_role r cs st) = Released \<longleftrightarrow>
     (\<exists>ro. CheckReadOnly_reply r = Inr ro \<and> (\<not> ro \<longrightarrow> (\<exists>res. Execute_reply r = Inr res)))"
  by (auto simp: check_role_def Let_def split: sum.splits)

lemma check_role_state:
  assumes "exit_path (check_role r cs st) = Released"
  shows "connection (host_state (check_role r cs st)) = connection st"
    and "app_name (host_state (check_role r cs st)) = app_name st"
    and "host_port (host_state (check_role r cs st)) = host_port st"
    and "roundtrip_time (host_state (check_role r cs st)) = elapsed r"
    and "role (host_state (check_role r cs st)) =
           (if CheckReadOnly_reply r = Inr True then kSlave else kMaster)"
    and "CheckReadOnly_reply r = Inr True \<longrightarrow>
           detected_sync_slaves (host_state (check_role r cs st)) = detected_sync_slaves st"
    and "CheckReadOnly_reply r = Inr False \<longrightarrow>
           (\<exists>res. Execute_reply r = Inr res \<and>
              detected_sync_slaves (host_state (check_role r cs st)) = ParseSyncStandbyNames res)"
  using assms by (auto simp: check_role_def Let_def split: sum.splits if_splits)

lemma check_role_names:
  "app_name (host_state (check_role r cs st)) = app_name st"
  "host_port (host_state (check_role r cs st)) = host_port st"
  by (auto simp: check_role_def Let_def split: sum.splits)

lemma RunCheck_exit: "exit_path (RunCheck r st) = exit_path (RunCheck_body r st)"
  and RunCheck_calls: "calls (RunCheck r st) = calls (RunCheck_body r st)"
  and RunCheck_state: "host_state (RunCheck r st) =
     (if exit_path (RunCheck_body r st) = Released then host_state (RunCheck_body r st)
      else role_check_guard (host_state (RunCheck_body r st)))"
  by (simp_all add: RunCheck_def Let_def)

lemma RunCheck_body_Released:
  "exit_path (RunCheck_body r st) = Released \<longleftrightarrow>
     (connection st \<noteq> None \<or> (\<exists>c. Connect_reply r = Inr c)) \<and>
     (\<exists>ro. CheckReadOnly_reply r = Inr ro \<and> (\<not> ro \<longrightarrow> (\<exists>res. Execute_reply r = Inr res)))"
  by (cases "Connect_reply r") (auto simp: RunCheck_body_def check_role_Released)

lemma RunCheck_body_state:
  assumes "exit_path (RunCheck_body r st) = Released"
  shows "connection (host_state (RunCheck_body r st)) \<noteq> None"
    and "roundtrip_time (host_state (RunCheck_body r st)) = elapsed r"
    and "role (host_state (RunCheck_body r st)) =
           (if CheckReadOnly_reply r = Inr True then kSlave else kMaster)"
    and "CheckReadOnly_reply r = Inr True \<longrightarrow>
           detected_sync_slaves (host_state (RunCheck_body r st)) = detected_sync_slaves st"
    and "CheckReadOnly_reply r = Inr False \<longrightarrow>
           (\<exists>res. Execute_reply r = Inr res \<and>
              detected_sync_slaves (host_state (RunCheck_body r st)) = ParseSyncStandbyNames res)"
proof -
  show "connection (host_state (RunCheck_body r st)) \<noteq> None"
    using assms by (cases "Connect_reply r") (auto simp: RunCheck_body_def check_role_state(1) split: if_splits)
  show "roundtrip_time (host_state (RunCheck_body r st)) = elapsed r"
    using assms by (cases "Connect_reply r") (auto simp: RunCheck_body_def check_role_state(4) split: if_splits)
  show "role (host_state (RunCheck_body r st)) =
           (if CheckReadOnly_reply r = Inr True then kSlave else kMaster)"
    using assms
    by (cases "Connect_reply r") (auto simp: RunCheck_body_def check_role_state(5) split: if_splits)
  show "CheckReadOnly_reply r = Inr True \<longrightarrow>
           detected_sync_slaves (host_state (RunCheck_body r st)) = detected_sync_slaves st"
    using assms
    by (cases "Connect_reply r") (auto simp: RunCheck_body_def check_role_state(6) split: if_splits)
  show "CheckReadOnly_reply r = Inr False \<longrightarrow>
           (\<exists>res. Execute_reply r = Inr res \<and>
              detected_sync_slaves (host_state (RunCheck_body r st)) = ParseSyncStandbyNames res)"
    using assms
    by (cases "Connect_reply r")
       (auto simp: RunCheck_body_def split: if_splits dest: check_role_state(7) [THEN mp])
qed

lemma RunCheck_body_names:
  "app_name (host_state (RunCheck_body r st)) = app_name st"
  "host_port (host_state (RunCheck_body r st)) = host_port st"
  by (cases "Connect_reply r"; simp add: RunCheck_body_def check_role_names)+

lemma RunCheck_names:
  "app_name (host_state (RunCheck r st)) = app_name st"
  "host_port (host_state (RunCheck r st)) = host_port st"
  by (simp_all add: RunCheck_state RunCheck_body_names role_check_guard_def)

lemma RunCheck_role:
  "role (host_state (RunCheck r st)) \<in> {kNone, kMaster, kSlave}"
  by (simp add: RunCheck_state RunCheck_body_state role_check_guard_def)

text \<open>
  Claim C4. Whenever \<open>RunCheck\<close> is left on a path other than the one through
  \<open>Release()\<close> (the \<open>return\<close> after a failed connect, the handler of the second \<open>try\<close>, an
  exception that leaves the function) the slot holds the \<open>None\<close> tuple: role \<open>kNone\<close>,
  round-trip time \<open>kUnknownRtt\<close>, no detected sync slaves, no connection. After a successful
  probe nothing is reset: the connection is kept, the role is \<open>kMaster\<close> or \<open>kSlave\<close>, the
  round-trip time is the measured one, and the list of sync slaves is what the parser
  returned for a master and what it was before for a slave. The probe is successful exactly
  when a connection exists or is made, the read-only check answers, and for a master the
  \<open>SHOW\<close> query answers too.
\<close>

theorem RunCheck_fields_move_together:
  "(exit_path (RunCheck r st) \<noteq> Released \<longrightarrow>
      role (host_state (RunCheck r st)) = kNone \<and>
      roundtrip_time (host_state (RunCheck r st)) = kUnknownRtt \<and>
      detected_sync_slaves (host_state (RunCheck r st)) = [] \<and>
      connection (host_state (RunCheck r st)) = None) \<and>
   (exit_path (RunCheck r st) = Released \<longrightarrow>
      role (host_state (RunCheck r st)) \<in> {kMaster, kSlave} \<and>
      roundtrip_time (host_state (RunCheck r st)) = elapsed r \<and>
      connection (host_state (RunCheck r st)) \<noteq> None \<and>
      (role (host_state (RunCheck r st)) = kSlave \<longrightarrow>
         detected_sync_slaves (host_state (RunCheck r st)) = detected_sync_slaves st) \<and>
      (role (host_state (RunCheck r st)) = kMaster \<longrightarrow>
         (\<exists>res. Execute_reply r = Inr res \<and>
            detected_sync_slaves (host_state (RunCheck r st)) = ParseSyncStandbyNames res))) \<and>
   (exit_path (RunCheck r st) = Released \<longleftrightarrow>
      (connection st \<noteq> None \<or> (\<exists>c. Connect_reply r = Inr c)) \<and>
      (\<exists>ro. CheckReadOnly_reply r = Inr ro \<and>
         (\<not> ro \<longrightarrow> (\<exists>res. Execute_reply r = Inr res))))"
proof (intro conjI impI)
  assume "exit_path (RunCheck r st) \<noteq> Released"
  then have g: "host_state (RunCheck r st) = role_check_guard (host_state (RunCheck_body r st))"
    by (simp add: RunCheck_exit RunCheck_state)
  show "role (host_state (RunCheck r st)) = kNone"
    and "roundtrip_time (host_state (RunCheck r st)) = kUnknownRtt"
    and "detected_sync_slaves (host_state (RunCheck r st)) = []"
    and "connection (host_state (RunCheck r st)) = None"
    unfolding g by (simp_all add: role_check_guard_def)
next
  assume "exit_path (RunCheck r st) = Released"
  then have rel: "exit_path (RunCheck_body r st) = Released"
    and k: "host_state (RunCheck r st) = host_state (RunCheck_body r st)"
    by (simp_all add: RunCheck_exit RunCheck_state)
  from rel obtain ro where ro: "CheckReadOnly_reply r = Inr ro"
    unfolding RunCheck_body_Released by blast
  show "role (host_state (RunCheck r st)) \<in> {kMaster, kSlave}"
    and "roundtrip_time (host_state (RunCheck r st)) = elapsed r"
    and "connection (host_state (RunCheck r st)) \<noteq> None"
    unfolding k using RunCheck_body_state(1-3) [OF rel] by simp_all
  {
    assume "role (host_state (RunCheck r st)) = kSlave"
    with ro have "CheckReadOnly_reply r = Inr True"
      unfolding k RunCheck_body_state(3) [OF rel] by (cases ro) simp_all
    with RunCheck_body_state(4) [OF rel]
    show "detected_sync_slaves (host_state (RunCheck r st)) = detected_sync_slaves st"
      unfolding k by simp
  }
  {
    assume "role (host_state (RunCheck r st)) = kMaster"
    with ro have "CheckReadOnly_reply r = Inr False"
      unfolding k RunCheck_body_state(3) [OF rel] by (cases ro) simp_all
    with RunCheck_body_state(5) [OF rel]
    show "\<exists>res. Execute_reply r = Inr res \<and>
            detected_sync_slaves (host_state (RunCheck r st)) = ParseSyncStandbyNames res"
      unfolding k by simp
  }
next
  show "exit_path (RunCheck r st) = Released \<longleftrightarrow>
      (connection st \<noteq> None \<or> (\<exists>c. Connect_reply r = Inr c)) \<and>
      (\<exists>ro. CheckReadOnly_reply r = Inr ro \<and>
         (\<not> ro \<longrightarrow> (\<exists>res. Execute_reply r = Inr res)))"
    unfolding RunCheck_exit by (rule RunCheck_body_Released)
qed

section \<open>What a cycle publishes\<close>

subsection \<open>The loops of \<open>RunDiscovery\<close>\<close>

lemma length_spawn_tasks [simp]: "length (spawn_tasks env hs) = length hs"
  by (simp add: spawn_tasks_def)

lemma nth_spawn_tasks:
  "i < length hs \<Longrightarrow> spawn_tasks env hs ! i = RunCheck (env i) (hs ! i)"
  by (simp add: spawn_tasks_def)

lemma length_joined_states [simp]: "length (joined_states env hs) = length hs"
  by (simp add: joined_states_def)

lemma nth_joined_states:
  "i < length hs \<Longrightarrow> joined_states env hs ! i = host_state (RunCheck (env i) (hs ! i))"
  by (simp add: joined_states_def nth_spawn_tasks)

lemma upt_0_Suc: "[0..<Suc n] = 0 # map Suc [0..<n]"
  by (simp add: upt_conv_Cons map_Suc_upt del: upt_Suc)

lemma join_loop_Inr:
  "join_loop ts i alive = Inr a \<Longrightarrow>
     a = alive @ map (\<lambda>k. k + i) [k \<leftarrow> [0..<length ts]. role (host_state (ts ! k)) \<noteq> kNone]"
proof (induction ts arbitrary: i alive)
  case Nil
  then show ?case by simp
next
  case (Cons t ts)
  from Cons.prems have
    "join_loop ts (Suc i) (if role (host_state t) \<noteq> kNone then alive @ [i] else alive) = Inr a"
    by (cases "exit_path t") simp_all
  from Cons.IH [OF this] show ?case
    by (simp add: upt_0_Suc filter_map o_def del: upt_Suc)
qed

lemma join_loop_alive:
  assumes "join_loop (spawn_tasks env hs) 0 [] = Inr alive"
  shows "alive = [i \<leftarrow> [0..<length hs]. role (joined_states env hs ! i) \<noteq> kNone]"
proof -
  have "[k \<leftarrow> [0..<length hs]. role (host_state (spawn_tasks env hs ! k)) \<noteq> kNone]
      = [i \<leftarrow> [0..<length hs]. role (joined_states env hs ! i) \<noteq> kNone]"
    by (rule filter_cong) (simp_all add: joined_states_def)
  with join_loop_Inr [OF assms] show ?thesis by simp
qed


lemma join_loop_Inl:
  "join_loop ts i alive = Inl e \<Longrightarrow> \<exists>t \<in> set ts. exit_path t = Thrown e"
proof (induction ts arbitrary: i alive)
  case Nil
  then show ?case by simp
next
  case (Cons t ts)
  then show ?case by (cases "exit_path t") auto
qed


lemma find_if_le: "find_if p xs \<le> length xs"
  by (induction xs) simp_all

lemma find_if_first:
  "find_if p xs < length xs \<Longrightarrow> p (xs ! find_if p xs) \<and> (\<forall>j < find_if p xs. \<not> p (xs ! j))"
proof (induction xs)
  case Nil
  then show ?case by simp
next
  case (Cons x xs)
  then show ?case by (auto simp: less_Suc_eq_0_disj)
qed

lemma find_if_end: "find_if p xs = length xs \<longleftrightarrow> (\<forall>x \<in> set xs. \<not> p x)"
  by (induction xs) auto

lemma mark_sync_slave_length [simp]:
  "length (mark_sync_slave name alive hs) = length hs"
  unfolding mark_sync_slave_def by (induction alive arbitrary: hs) simp_all

lemma mark_sync_slave_nth:
  "i < length hs \<Longrightarrow>
     mark_sync_slave name alive hs ! i =
       (if i \<in> set alive \<and> StrIcaseEqual (app_name (hs ! i)) name
        then (hs ! i)\<lparr>role := kSyncSlave\<rparr> else hs ! i)"
  unfolding mark_sync_slave_def
proof (induction alive arbitrary: hs)
  case Nil
  show ?case by simp
next
  case (Cons a alive)
  let ?hs' = "if StrIcaseEqual (app_name (hs ! a)) name
              then hs[a := (hs ! a)\<lparr>role := kSyncSlave\<rparr>] else hs"
  have len: "i < length ?hs'" using Cons.prems by simp
  have nth: "?hs' ! i = (if i = a \<and> StrIcaseEqual (app_name (hs ! i)) name
                         then (hs ! i)\<lparr>role := kSyncSlave\<rparr> else hs ! i)"
    using Cons.prems by (auto simp: nth_list_update)
  show ?case
    using Cons.IH [OF len] by (simp only: fold_simps nth) auto
qed

lemma mark_all_length [simp]:
  "length (fold (\<lambda>ss_app_name hs. mark_sync_slave ss_app_name alive hs) names hs) = length hs"
  by (induction names arbitrary: hs) simp_all

lemma mark_all_nth:
  "i < length hs \<Longrightarrow>
     fold (\<lambda>ss_app_name hs. mark_sync_slave ss_app_name alive hs) names hs ! i =
       (if i \<in> set alive \<and> (\<exists>n \<in> set names. StrIcaseEqual (app_name (hs ! i)) n)
        then (hs ! i)\<lparr>role := kSyncSlave\<rparr> else hs ! i)"
proof (induction names arbitrary: hs)
  case Nil
  show ?case by simp
next
  case (Cons n names)
  have len: "i < length (mark_sync_slave n alive hs)" using Cons.prems by simp
  show ?case
    using Cons.IH [OF len] Cons.prems
    by (simp only: fold_simps mark_sync_slave_nth) auto
qed

lemma promote_length [simp]: "length (promote hs alive) = length hs"
  by (simp add: promote_def Let_def)

lemma promote_nth:
  assumes "i < length hs"
  shows "promote hs alive ! i =
     (if i \<in> set alive \<and> find_if (\<lambda>s. role s = kMaster) hs < length hs \<and>
         (\<exists>n \<in> set (detected_sync_slaves (hs ! find_if (\<lambda>s. role s = kMaster) hs)).
            StrIcaseEqual (app_name (hs ! i)) n)
      then (hs ! i)\<lparr>role := kSyncSlave\<rparr> else hs ! i)"
proof -
  let ?m = "find_if (\<lambda>s. role s = kMaster) hs"
  have "?m \<noteq> length hs \<longleftrightarrow> ?m < length hs"
    using find_if_le [of "\<lambda>s. role s = kMaster" hs] by arith
  then show ?thesis
    using assms by (auto simp: promote_def Let_def mark_all_nth)
qed

lemma bucket_push_back:
  "bucket (push_back m t' idx) t = (if t = t' then bucket m t @ [idx] else bucket m t)"
  by (simp add: push_back_def bucket_def)

lemma bucket_by_type_step:
  "bucket (by_type_step hs idx m) t =
     bucket m t @ (if role (hs ! idx) = t \<or> (t = kSlave \<and> role (hs ! idx) = kSyncSlave)
                   then [idx] else [])"
  by (auto simp: by_type_step_def Let_def bucket_push_back)

lemma bucket_fold_by_type:
  "bucket (fold (by_type_step hs) alive m) t =
     bucket m t @ [i \<leftarrow> alive. role (hs ! i) = t \<or> (t = kSlave \<and> role (hs ! i) = kSyncSlave)]"
  by (induction alive arbitrary: m) (simp_all add: bucket_by_type_step)

lemma bucket_build_by_type:
  "bucket (build_by_type hs alive) t =
     [i \<leftarrow> alive. role (hs ! i) = t \<or> (t = kSlave \<and> role (hs ! i) = kSyncSlave)]"
  unfolding build_by_type_def bucket_fold_by_type by (simp add: bucket_def)



lemma std_sort_set: "std_sort cmp xs ys \<Longrightarrow> set ys = set xs"
  and std_sort_distinct: "std_sort cmp xs ys \<Longrightarrow> distinct ys = distinct xs"
  by (auto simp: std_sort_def dest: mset_eq_setD mset_eq_imp_distinct_iff)

lemma RunDiscovery_InrE:
  assumes "RunDiscovery env hs (Inr out)"
  obtains alive where "join_loop (spawn_tasks env hs) 0 [] = Inr alive"
    and "host_states out = promote (joined_states env hs) alive"
    and "std_sort (rtt_less (host_states out)) alive (alive_dsn_indices out)"
    and "dsn_indices_by_type out = build_by_type (host_states out) (alive_dsn_indices out)"
  using assms by (cases rule: RunDiscovery.cases) auto


subsection \<open>The published values\<close>

lemma RunDiscovery_published:
  assumes "RunDiscovery env hs (Inr out)"
  obtains alive where
    "alive = [i \<leftarrow> [0..<length hs]. role (joined_states env hs ! i) \<noteq> kNone]"
    and "host_states out = promote (joined_states env hs) alive"
    and "mset (alive_dsn_indices out) = mset alive"
    and "sorted_wrt (\<lambda>a b. roundtrip_time (host_states out ! a)
                          \<le> roundtrip_time (host_states out ! b)) (alive_dsn_indices out)"
    and "dsn_indices_by_type out = build_by_type (host_states out) (alive_dsn_indices out)"
proof -
  from assms obtain alive where j: "join_loop (spawn_tasks env hs) 0 [] = Inr alive"
    and p: "host_states out = promote (joined_states env hs) alive"
    and s: "std_sort (rtt_less (host_states out)) alive (alive_dsn_indices out)"
    and b: "dsn_indices_by_type out = build_by_type (host_states out) (alive_dsn_indices out)"
    by (rule RunDiscovery_InrE)
  from s have "mset (alive_dsn_indices out) = mset alive"
    and "sorted_wrt (\<lambda>a b. roundtrip_time (host_states out ! a)
                          \<le> roundtrip_time (host_states out ! b)) (alive_dsn_indices out)"
    by (simp_all add: std_sort_def rtt_less_def not_less)
  with join_loop_alive [OF j] p b that show thesis by blast
qed

lemma promote_role_None:
  assumes "i < length hs" and "\<forall>k \<in> set alive. role (hs ! k) \<noteq> kNone"
  shows "role (promote hs alive ! i) = kNone \<longleftrightarrow> role (hs ! i) = kNone"
  using assms by (auto simp: promote_nth)

lemma published_role:
  assumes "RunDiscovery env hs (Inr out)" and "i < length hs"
  shows "role (host_states out ! i) \<noteq> kNone \<longleftrightarrow> role (joined_states env hs ! i) \<noteq> kNone"
proof -
  from assms(1) obtain alive where
    a: "alive = [i \<leftarrow> [0..<length hs]. role (joined_states env hs ! i) \<noteq> kNone]"
    and p: "host_states out = promote (joined_states env hs) alive"
    by (rule RunDiscovery_published)
  from a have "\<forall>k \<in> set alive. role (joined_states env hs ! k) \<noteq> kNone" by simp
  with promote_role_None [of i "joined_states env hs" alive] assms(2) p
  show ?thesis by simp
qed

lemma published_alive_set:
  assumes "RunDiscovery env hs (Inr out)"
  shows "length (host_states out) = length hs"
    and "set (alive_dsn_indices out) = {i. i < length hs \<and> role (host_states out ! i) \<noteq> kNone}"
    and "distinct (alive_dsn_indices out)"
proof -
  from assms obtain alive where
    a: "alive = [i \<leftarrow> [0..<length hs]. role (joined_states env hs ! i) \<noteq> kNone]"
    and p: "host_states out = promote (joined_states env hs) alive"
    and m: "mset (alive_dsn_indices out) = mset alive"
    by (rule RunDiscovery_published)
  from p show "length (host_states out) = length hs" by simp
  from m have "set (alive_dsn_indices out) = set alive" by (rule mset_eq_setD)
  also from a have "\<dots> = {i. i < length hs \<and> role (joined_states env hs ! i) \<noteq> kNone}"
    by auto
  also have "\<dots> = {i. i < length hs \<and> role (host_states out ! i) \<noteq> kNone}"
    using published_role [OF assms] by auto
  finally show "set (alive_dsn_indices out)
      = {i. i < length hs \<and> role (host_states out ! i) \<noteq> kNone}" .
  from a have "distinct alive" by simp
  with mset_eq_imp_distinct_iff [OF m] show "distinct (alive_dsn_indices out)" by simp
qed

text \<open>
  Claim C2, as amended. In every cycle that publishes, the published list of alive indices
  is sorted by non-decreasing round-trip time and is a rearrangement of the alive indices
  (those whose role is not \<open>kNone\<close>), each occurring once. The code sorts with \<open>std::sort\<close>,
  so nothing is said about the order of two indices with equal round-trip time.
\<close>

theorem AliveByRtt_sorted:
  assumes "RunDiscovery env hs (Inr out)"
  shows "sorted_wrt (\<lambda>a b. roundtrip_time (host_states out ! a)
                          \<le> roundtrip_time (host_states out ! b)) (alive_dsn_indices out) \<and>
         mset (alive_dsn_indices out) =
           mset [i \<leftarrow> [0..<length hs]. role (host_states out ! i) \<noteq> kNone]"
proof -
  from assms obtain alive where
    a: "alive = [i \<leftarrow> [0..<length hs]. role (joined_states env hs ! i) \<noteq> kNone]"
    and m: "mset (alive_dsn_indices out) = mset alive"
    and s: "sorted_wrt (\<lambda>a b. roundtrip_time (host_states out ! a)
                          \<le> roundtrip_time (host_states out ! b)) (alive_dsn_indices out)"
    by (rule RunDiscovery_published)
  have "[i \<leftarrow> [0..<length hs]. role (joined_states env hs ! i) \<noteq> kNone]
      = [i \<leftarrow> [0..<length hs]. role (host_states out ! i) \<noteq> kNone]"
    by (rule filter_cong) (simp_all add: published_role [OF assms])
  with a m s show ?thesis by simp
qed

text \<open>
  Claim C7. In every cycle that publishes, each index in the published list of alive
  indices and each index in any bucket of the published mapping is the index of a host
  whose role, at that moment, is not \<open>kNone\<close>.
\<close>

theorem published_indices_alive:
  assumes "RunDiscovery env hs (Inr out)"
  shows "(\<forall>i \<in> set (alive_dsn_indices out).
            i < length (host_states out) \<and> role (host_states out ! i) \<noteq> kNone) \<and>
         (\<forall>t xs. dsn_indices_by_type out t = Some xs \<longrightarrow>
            (\<forall>i \<in> set xs. i < length (host_states out) \<and> role (host_states out ! i) \<noteq> kNone))"
proof (intro conjI allI impI ballI)
  fix i assume "i \<in> set (alive_dsn_indices out)"
  with published_alive_set [OF assms]
  show "i < length (host_states out)" and "role (host_states out ! i) \<noteq> kNone"
    by simp_all
next
  fix t xs i
  assume t: "dsn_indices_by_type out t = Some xs" and i: "i \<in> set xs"
  from assms obtain alive where "dsn_indices_by_type out
      = build_by_type (host_states out) (alive_dsn_indices out)"
    by (rule RunDiscovery_published)
  with t have "xs = bucket (build_by_type (host_states out) (alive_dsn_indices out)) t"
    by (simp add: bucket_def)
  with i have "i \<in> set (alive_dsn_indices out)"
    by (simp add: bucket_build_by_type)
  with published_alive_set [OF assms]
  show "i < length (host_states out)" and "role (host_states out ! i) \<noteq> kNone"
    by simp_all
qed

lemma count_list_distinct: "distinct xs \<Longrightarrow> x \<in> set xs \<Longrightarrow> count_list xs x = 1"
  by (induction xs) auto

lemma count_list_filter: "count_list (filter P xs) x = (if P x then count_list xs x else 0)"
  by (induction xs) auto

text \<open>
  Claim C8. In every published mapping, each index whose role is \<open>kSyncSlave\<close> occurs
  exactly once in the \<open>kSyncSlave\<close> bucket and exactly once in the \<open>kSlave\<close> bucket; each
  bucket is the sorted list of alive indices with the other roles left out, so it keeps
  that list's order and is sorted by non-decreasing round-trip time itself.
\<close>

theorem SyncSlave_in_both_buckets:
  assumes "RunDiscovery env hs (Inr out)"
  shows "(\<forall>i < length (host_states out). role (host_states out ! i) = kSyncSlave \<longrightarrow>
            count_list (bucket (dsn_indices_by_type out) kSyncSlave) i = 1 \<and>
            count_list (bucket (dsn_indices_by_type out) kSlave) i = 1) \<and>
         (\<forall>t. bucket (dsn_indices_by_type out) t =
                 [i \<leftarrow> alive_dsn_indices out.
                    role (host_states out ! i) = t \<or>
                    (t = kSlave \<and> role (host_states out ! i) = kSyncSlave)] \<and>
               sorted_wrt (\<lambda>a b. roundtrip_time (host_states out ! a)
                                \<le> roundtrip_time (host_states out ! b))
                 (bucket (dsn_indices_by_type out) t))"
proof -
  from assms obtain alive where b: "dsn_indices_by_type out
      = build_by_type (host_states out) (alive_dsn_indices out)"
    and s: "sorted_wrt (\<lambda>a b. roundtrip_time (host_states out ! a)
                          \<le> roundtrip_time (host_states out ! b)) (alive_dsn_indices out)"
    by (rule RunDiscovery_published)
  note pa = published_alive_set [OF assms]
  have bk: "bucket (dsn_indices_by_type out) t =
      [i \<leftarrow> alive_dsn_indices out.
         role (host_states out ! i) = t \<or> (t = kSlave \<and> role (host_states out ! i) = kSyncSlave)]"
    for t unfolding b by (rule bucket_build_by_type)
  have once: "count_list (bucket (dsn_indices_by_type out) kSyncSlave) i = 1 \<and>
              count_list (bucket (dsn_indices_by_type out) kSlave) i = 1"
    if "i < length (host_states out)" and "role (host_states out ! i) = kSyncSlave" for i
  proof -
    from that pa(1,2) have "i \<in> set (alive_dsn_indices out)" by simp
    with pa(3) have "count_list (alive_dsn_indices out) i = 1"
      by (simp add: count_list_distinct)
    with that(2) show ?thesis by (simp add: bk count_list_filter)
  qed
  have srt: "sorted_wrt (\<lambda>a b. roundtrip_time (host_states out ! a)
                              \<le> roundtrip_time (host_states out ! b))
               (bucket (dsn_indices_by_type out) t)" for t
    unfolding bk using s by (rule sorted_wrt_filter)
  from once bk srt show ?thesis by blast
qed

subsection \<open>Exceptions of the probes\<close>
















subsection \<open>The scenarios\<close>

text \<open>
  Scenario S6 of the specification: a master \<open>m\<close> whose standby list names \<open>r1\<close> first, and
  two replicas, answering after 3, 5 and 2 milliseconds. The cycle publishes
  \<open>out_S6\<close>: alive indices \<open>[2, 0, 1]\<close>, and the buckets master \<open>[0]\<close>, sync slave \<open>[1]\<close>,
  slave \<open>[2, 1]\<close>.
\<close>

lemma RunDiscovery_S6: "RunDiscovery env_S6 cluster_S6 (Inr out_S6)"
proof -
  have j: "join_loop (spawn_tasks env_S6 cluster_S6) 0 [] = Inr [0, 1, 2]"
    by code_simp
  have p: "states_S6 = promote (joined_states env_S6 cluster_S6) [0, 1, 2]"
    by code_simp
  have s: "std_sort (rtt_less states_S6) [0, 1, 2] [2, 0, 1]"
    by (simp add: std_sort_def rtt_less_def states_S6_def)
  have b: "build_by_type states_S6 [2, 0, 1]
      = [kMaster \<mapsto> [0], kSyncSlave \<mapsto> [1], kSlave \<mapsto> [2, 1]]"
    by (rule ext)
       (simp add: build_by_type_def by_type_step_def push_back_def bucket_def states_S6_def)
  show ?thesis
    unfolding out_S6_def b [symmetric] by (rule RunDiscovery.publish [OF j p s])
qed

text \<open>
  Seventeen replicas with the same round-trip time: the cycle can publish them in the
  order \<open>order_tie\<close>.
\<close>

lemma RunDiscovery_tie: "RunDiscovery env_tie cluster_tie (Inr out_tie)"
proof -
  have j: "join_loop (spawn_tasks env_tie cluster_tie) 0 [] = Inr [0..<17]"
    by code_simp
  have p: "states_tie = promote (joined_states env_tie cluster_tie) [0..<17]"
    by code_simp
  have s: "std_sort (rtt_less states_tie) [0..<17] order_tie"
    by code_simp
  have b: "build_by_type states_tie order_tie = [kSlave \<mapsto> order_tie]"
    by (rule ext)
       (simp add: build_by_type_def by_type_step_def push_back_def bucket_def states_tie_def
          order_tie_def)
  show ?thesis
    unfolding out_tie_def b [symmetric] by (rule RunDiscovery.publish [OF j p s])
qed

theorem AliveByRtt_sorted_witness:
  "RunDiscovery env_S6 cluster_S6 (Inr out_S6) \<and>
   alive_dsn_indices out_S6 = [2, 0, 1] \<and>
   sorted_wrt (\<lambda>a b. roundtrip_time (host_states out_S6 ! a)
                    \<le> roundtrip_time (host_states out_S6 ! b)) (alive_dsn_indices out_S6) \<and>
   mset (alive_dsn_indices out_S6) =
     mset [i \<leftarrow> [0..<length cluster_S6]. role (host_states out_S6 ! i) \<noteq> kNone]"
proof -
  have "alive_dsn_indices out_S6 = [2, 0, 1]" by (simp add: out_S6_def)
  with RunDiscovery_S6 AliveByRtt_sorted [OF RunDiscovery_S6] show ?thesis by blast
qed

text \<open>
  Where claim C2 as first written fails: seventeen alive hosts with equal round-trip
  times are published in the order \<open>8, 16, 15, \<dots>, 9, 0, 7, \<dots>, 1\<close>, while the stable sort
  of the alive indices in index order is \<open>0, 1, \<dots>, 16\<close>: index 8 stands before index 0
  although their round-trip times are equal.
\<close>

theorem AliveByRtt_stable_counterexample:
  "RunDiscovery env_tie cluster_tie (Inr out_tie) \<and>
   alive_dsn_indices out_tie = [8, 16, 15, 14, 13, 12, 11, 10, 9, 0, 7, 6, 5, 4, 3, 2, 1] \<and>
   roundtrip_time (host_states out_tie ! 8) = roundtrip_time (host_states out_tie ! 0) \<and>
   sort_key (\<lambda>i. roundtrip_time (host_states out_tie ! i)) [0..<17] = [0..<17]"
proof -
  have "sort_key (\<lambda>i. roundtrip_time (states_tie ! i)) [0..<17] = [0..<17]"
    by code_simp
  moreover have "roundtrip_time (states_tie ! 8) = roundtrip_time (states_tie ! 0)"
    by code_simp
  ultimately show ?thesis
    using RunDiscovery_tie by (simp add: out_tie_def order_tie_def)
qed

theorem published_indices_alive_witness:
  "alive_dsn_indices out_S6 = [2, 0, 1] \<and>
   dsn_indices_by_type out_S6 kSlave = Some [2, 1] \<and>
   role (host_states out_S6 ! 2) \<noteq> kNone \<and>
   role (host_states out_S6 ! 0) \<noteq> kNone \<and>
   role (host_states out_S6 ! 1) \<noteq> kNone"
proof -
  have a: "alive_dsn_indices out_S6 = [2, 0, 1]"
    and k: "dsn_indices_by_type out_S6 kSlave = Some [2, 1]"
    by (simp_all add: out_S6_def)
  have "2 \<in> set (alive_dsn_indices out_S6)" "0 \<in> set (alive_dsn_indices out_S6)"
    and "(1::nat) \<in> set [2, 1]"
    by (simp_all add: a)
  with published_indices_alive [OF RunDiscovery_S6] k
  have "role (host_states out_S6 ! 2) \<noteq> kNone \<and> role (host_states out_S6 ! 0) \<noteq> kNone \<and>
        role (host_states out_S6 ! 1) \<noteq> kNone"
    by blast
  with a k show ?thesis by blast
qed

theorem SyncSlave_in_both_buckets_witness:
  "role (host_states out_S6 ! 1) = kSyncSlave \<and>
   count_list (bucket (dsn_indices_by_type out_S6) kSyncSlave) 1 = 1 \<and>
   count_list (bucket (dsn_indices_by_type out_S6) kSlave) 1 = 1 \<and>
   bucket (dsn_indices_by_type out_S6) kSlave = [2, 1]"
proof -
  have r: "1 < length (host_states out_S6)" "role (host_states out_S6 ! 1) = kSyncSlave"
    by (simp_all add: out_S6_def states_S6_def)
  have b: "bucket (dsn_indices_by_type out_S6) kSlave = [2, 1]"
    by (simp add: out_S6_def bucket_def)
  from SyncSlave_in_both_buckets [OF RunDiscovery_S6] r
  have "count_list (bucket (dsn_indices_by_type out_S6) kSyncSlave) 1 = 1 \<and>
        count_list (bucket (dsn_indices_by_type out_S6) kSlave) 1 = 1"
    by blast
  with r b show ?thesis by blast
qed

theorem RunCheck_fields_move_together_witness:
  "exit_path (RunCheck query_fails (new_HostState ''m'')) \<noteq> Released \<and>
   host_state (RunCheck query_fails (new_HostState ''m'')) = new_HostState ''m'' \<and>
   exit_path (RunCheck (answers False 3000 ''FIRST 1 (r1, r2)'') (new_HostState ''m'')) = Released \<and>
   role (host_state (RunCheck (answers False 3000 ''FIRST 1 (r1, r2)'') (new_HostState ''m'')))
     = kMaster \<and>
   connection (host_state (RunCheck (answers False 3000 ''FIRST 1 (r1, r2)'')
     (new_HostState ''m''))) \<noteq> None \<and>
   roundtrip_time (host_state (RunCheck (answers False 3000 ''FIRST 1 (r1, r2)'')
     (new_HostState ''m''))) = 3000"
proof -
  have q: "exit_path (RunCheck query_fails (new_HostState ''m'')) = Thrown OtherException"
    by code_simp
  have names: "app_name (host_state (RunCheck query_fails (new_HostState ''m''))) = ''m''"
    "host_port (host_state (RunCheck query_fails (new_HostState ''m''))) = []"
    by (simp_all add: RunCheck_names new_HostState_def)
  have a: "exit_path (RunCheck (answers False 3000 ''FIRST 1 (r1, r2)'') (new_HostState ''m''))
      = Released"
    "role (host_state (RunCheck (answers False 3000 ''FIRST 1 (r1, r2)'') (new_HostState ''m'')))
      = kMaster"
    by code_simp+
  from RunCheck_fields_move_together [of query_fails "new_HostState ''m''"]
       RunCheck_fields_move_together
         [of "answers False 3000 ''FIRST 1 (r1, r2)''" "new_HostState ''m''"]
       q a names
  show ?thesis
    by (simp add: new_HostState_def answers_def HostState.equality)
qed

subsection \<open>The attribution of synchronous replicas\<close>

text \<open>
  A master whose own name stands first in its \<open>synchronous_standby_names\<close>, as when every
  host of a cluster carries the same list, and one replica.
\<close>

lemma RunDiscovery_self: "RunDiscovery env_self cluster_self (Inr out_self)"
proof -
  have j: "join_loop (spawn_tasks env_self cluster_self) 0 [] = Inr [0, 1]"
    by code_simp
  have p: "states_self = promote (joined_states env_self cluster_self) [0, 1]"
    by code_simp
  have s: "std_sort (rtt_less states_self) [0, 1] [0, 1]"
    by (simp add: std_sort_def rtt_less_def states_self_def)
  have b: "build_by_type states_self [0, 1] = [kSyncSlave \<mapsto> [0], kSlave \<mapsto> [0, 1]]"
    by (rule ext)
       (simp add: build_by_type_def by_type_step_def push_back_def bucket_def states_self_def)
  show ?thesis
    unfolding out_self_def b [symmetric] by (rule RunDiscovery.publish [OF j p s])
qed

text \<open>
  The attribution loops as they are written. After them a host carries the role
  \<open>kSyncSlave\<close> if and only if it is alive, \<open>find_if\<close> found a host whose role is \<open>kMaster\<close>,
  and the list of sync slaves detected for that host holds a name equal, without regard to
  case, to the host's \<open>app_name\<close>. At the join every role is \<open>kNone\<close>, \<open>kMaster\<close> or \<open>kSlave\<close>,
  and the loops change nothing of a host but its role.
\<close>

lemma attribution_as_written:
  assumes "RunDiscovery env hs (Inr out)" and "i < length hs"
  shows
    "(role (host_states out ! i) = kSyncSlave \<longleftrightarrow>
        role (joined_states env hs ! i) \<noteq> kNone \<and>
        find_if (\<lambda>s. role s = kMaster) (joined_states env hs) < length hs \<and>
        detected_sync_slaves
          (joined_states env hs ! find_if (\<lambda>s. role s = kMaster) (joined_states env hs)) \<noteq> [] \<and>
        (\<exists>n \<in> set (detected_sync_slaves
                     (joined_states env hs
                        ! find_if (\<lambda>s. role s = kMaster) (joined_states env hs))).
           StrIcaseEqual (app_name (joined_states env hs ! i)) n)) \<and>
     role (joined_states env hs ! i) \<in> {kNone, kMaster, kSlave} \<and>
     host_states out ! i = (joined_states env hs ! i)\<lparr>role := role (host_states out ! i)\<rparr>"
proof -
  let ?js = "joined_states env hs"
  let ?m = "find_if (\<lambda>s. role s = kMaster) ?js"
  from assms(1) obtain alive where
    a: "alive = [i \<leftarrow> [0..<length hs]. role (?js ! i) \<noteq> kNone]"
    and p: "host_states out = promote ?js alive"
    by (rule RunDiscovery_published)
  from a assms(2) have al: "i \<in> set alive \<longleftrightarrow> role (?js ! i) \<noteq> kNone" by simp
  have r: "role (?js ! i) \<in> {kNone, kMaster, kSlave}"
    using assms(2) RunCheck_role [of "env i" "hs ! i"] by (simp add: nth_joined_states)
  have n: "host_states out ! i =
     (if role (?js ! i) \<noteq> kNone \<and> ?m < length hs \<and>
         (\<exists>n \<in> set (detected_sync_slaves (?js ! ?m)). StrIcaseEqual (app_name (?js ! i)) n)
      then (?js ! i)\<lparr>role := kSyncSlave\<rparr> else ?js ! i)"
    unfolding p using assms(2) promote_nth [of i ?js alive] by (simp add: al)
  have e: "(\<exists>n \<in> set (detected_sync_slaves (?js ! ?m)). StrIcaseEqual (app_name (?js ! i)) n)
      \<Longrightarrow> detected_sync_slaves (?js ! ?m) \<noteq> []"
    by auto
  show ?thesis
  proof (intro conjI)
    show "role (host_states out ! i) = kSyncSlave \<longleftrightarrow>
        role (?js ! i) \<noteq> kNone \<and> ?m < length hs \<and> detected_sync_slaves (?js ! ?m) \<noteq> [] \<and>
        (\<exists>n \<in> set (detected_sync_slaves (?js ! ?m)). StrIcaseEqual (app_name (?js ! i)) n)"
      using r e by (auto simp: n)
    show "role (?js ! i) \<in> {kNone, kMaster, kSlave}" by (rule r)
    show "host_states out ! i = (?js ! i)\<lparr>role := role (host_states out ! i)\<rparr>"
      by (simp add: n)
  qed
qed

text \<open>
  Claim C5, where the code departs from it. The claim has only hosts that probed as
  \<open>kSlave\<close> promoted, and so do the comment above the loops and their log line, which speak
  of sync slaves. The inner loop however has no test of the role: in a cluster whose
  master lists its own name in \<open>synchronous_standby_names\<close>, the host that probed as
  \<open>kMaster\<close> ends the cycle as \<open>kSyncSlave\<close>, and the published mapping has no master
  bucket.
\<close>

theorem self_listed_master_relabelled:
  "RunDiscovery env_self cluster_self (Inr out_self) \<and>
   role (joined_states env_self cluster_self ! 0) = kMaster \<and>
   role (host_states out_self ! 0) = kSyncSlave \<and>
   dsn_indices_by_type out_self kMaster = None \<and>
   dsn_indices_by_type out_self kSyncSlave = Some [0] \<and>
   dsn_indices_by_type out_self kSlave = Some [0, 1]"
proof -
  have "role (joined_states env_self cluster_self ! 0) = kMaster" by code_simp
  with RunDiscovery_self show ?thesis by (simp add: out_self_def states_self_def)
qed

lemma find_if_unique:
  "m < length xs \<Longrightarrow> p (xs ! m) \<Longrightarrow> \<forall>j<m. \<not> p (xs ! j) \<Longrightarrow> find_if p xs = m"
proof (induction xs arbitrary: m)
  case Nil
  then show ?case by simp
next
  case (Cons x xs)
  show ?case
  proof (cases m)
    case 0
    with Cons.prems show ?thesis by simp
  next
    case (Suc k)
    with Cons.prems have "\<not> p x" by auto
    moreover from Suc Cons.prems have "find_if p xs = k"
      by (intro Cons.IH) auto
    ultimately show ?thesis using Suc by simp
  qed
qed

text \<open>
  Claim C10. Let \<open>m\<close> be the lowest index whose role is \<open>kMaster\<close> when the tasks have been
  joined. The attribution pass relabels exactly the alive hosts whose \<open>app_name\<close> equals,
  without regard to case, a name in the list of host \<open>m\<close>; and replacing the list of any
  other host, a second master among them, by any other list leaves every resulting role as
  it is.
\<close>

theorem promote_uses_first_master:
  assumes "m < length hs" and "role (hs ! m) = kMaster" and "\<forall>j<m. role (hs ! j) \<noteq> kMaster"
  shows
    "(\<forall>i<length hs.
        promote hs alive ! i =
          (if i \<in> set alive \<and>
              (\<exists>n \<in> set (detected_sync_slaves (hs ! m)). StrIcaseEqual (app_name (hs ! i)) n)
           then (hs ! i)\<lparr>role := kSyncSlave\<rparr> else hs ! i)) \<and>
     (\<forall>k names. k \<noteq> m \<longrightarrow>
        map role (promote (hs[k := (hs ! k)\<lparr>detected_sync_slaves := names\<rparr>]) alive)
          = map role (promote hs alive))"
proof (intro conjI allI impI)
  have m: "find_if (\<lambda>s. role s = kMaster) hs = m"
    using assms by (intro find_if_unique) auto
  show first: "promote hs alive ! i =
          (if i \<in> set alive \<and>
              (\<exists>n \<in> set (detected_sync_slaves (hs ! m)). StrIcaseEqual (app_name (hs ! i)) n)
           then (hs ! i)\<lparr>role := kSyncSlave\<rparr> else hs ! i)"
    if "i < length hs" for i
    using that assms(1) by (simp add: promote_nth m)
  fix k names
  assume k: "k \<noteq> m"
  let ?hs' = "hs[k := (hs ! k)\<lparr>detected_sync_slaves := names\<rparr>]"
  have same: "role (?hs' ! j) = role (hs ! j)" "app_name (?hs' ! j) = app_name (hs ! j)"
    if "j < length hs" for j
    using that by (cases "j = k"; simp)+
  have m': "find_if (\<lambda>s. role s = kMaster) ?hs' = m"
    using assms by (intro find_if_unique) (simp_all add: same)
  have d: "detected_sync_slaves (?hs' ! m) = detected_sync_slaves (hs ! m)"
    using k by simp
  show "map role (promote ?hs' alive) = map role (promote hs alive)"
  proof (rule nth_equalityI)
    show "length (map role (promote ?hs' alive)) = length (map role (promote hs alive))"
      by simp
  next
    fix i assume "i < length (map role (promote ?hs' alive))"
    then have i: "i < length hs" by simp
    then have i': "i < length ?hs'" by simp
    define c where "c \<longleftrightarrow> i \<in> set alive \<and>
        (\<exists>n \<in> set (detected_sync_slaves (hs ! m)). StrIcaseEqual (app_name (hs ! i)) n)"
    have "promote ?hs' alive ! i = (if c then (?hs' ! i)\<lparr>role := kSyncSlave\<rparr> else ?hs' ! i)"
      unfolding c_def using promote_nth [OF i', of alive] assms(1)
      by (simp add: m' d same [OF i])
    then have "role (promote ?hs' alive ! i) = (if c then kSyncSlave else role (hs ! i))"
      by (simp add: same [OF i])
    moreover from first [OF i]
    have "role (promote hs alive ! i) = (if c then kSyncSlave else role (hs ! i))"
      unfolding c_def [symmetric] by simp
    ultimately show "map role (promote ?hs' alive) ! i = map role (promote hs alive) ! i"
      using i by simp
  qed
qed

text \<open>
  Two masters: the first lists \<open>pg_c\<close>, the second \<open>pg_d\<close>. Only \<open>pg_c\<close> is promoted, and
  the roles do not depend on what the second master lists.
\<close>

theorem promote_uses_first_master_witness:
  "role (promote two_masters [0, 1, 2, 3] ! 2) = kSyncSlave \<and>
   role (promote two_masters [0, 1, 2, 3] ! 3) = kSlave \<and>
   map role (promote (two_masters[1 := (two_masters ! 1)\<lparr>detected_sync_slaves := [''pg_c'', ''pg_d'']\<rparr>])
               [0, 1, 2, 3])
     = map role (promote two_masters [0, 1, 2, 3])"
proof -
  have h: "0 < length two_masters" "role (two_masters ! 0) = kMaster"
    "\<forall>j<0. role (two_masters ! j) \<noteq> kMaster"
    by (simp_all add: two_masters_def)
  note t = promote_uses_first_master [OF h, of "[0, 1, 2, 3]"]
  from t have a: "\<forall>i<length two_masters.
        promote two_masters [0, 1, 2, 3] ! i =
          (if i \<in> set [0, 1, 2, 3] \<and>
              (\<exists>n \<in> set (detected_sync_slaves (two_masters ! 0)).
                 StrIcaseEqual (app_name (two_masters ! i)) n)
           then (two_masters ! i)\<lparr>role := kSyncSlave\<rparr> else two_masters ! i)"
    by (rule conjunct1)
  have l: "2 < length two_masters" "3 < length two_masters"
    by (simp_all add: two_masters_def)
  have r2: "role (promote two_masters [0, 1, 2, 3] ! 2) = kSyncSlave"
    using a [rule_format, OF l(1)]
    by (simp add: two_masters_def StrIcaseEqual_def to_lower_def)
  have r3: "role (promote two_masters [0, 1, 2, 3] ! 3) = kSlave"
    using a [rule_format, OF l(2)]
    by (simp add: two_masters_def StrIcaseEqual_def to_lower_def)
  from t have "map role (promote (two_masters[1 := (two_masters ! 1)
        \<lparr>detected_sync_slaves := [''pg_c'', ''pg_d'']\<rparr>]) [0, 1, 2, 3])
     = map role (promote two_masters [0, 1, 2, 3])"
    by simp
  with r2 r3 show ?thesis by blast
qed

end
